theory Spec2Isabelle
  imports Main "HOL-Library.Word" "HOL-Library.Sublist"
begin

section \<open>Bytes and text\<close>

text \<open>
  The serial port delivers bytes; \<^verbatim>\<open>bytes.decode\<close> turns them into a Python \<^verbatim>\<open>str\<close>,
  a sequence of Unicode code points. A code point does not fit an 8-bit \<^typ>\<open>char\<close>, so
  text is a list of natural numbers.
\<close>

type_synonym byte = "8 word"
type_synonym codepoint = nat
type_synonym pystr = "codepoint list"

definition str_of :: "string \<Rightarrow> pystr" where
  "str_of s = map of_char s"

definition bytes_of :: "string \<Rightarrow> byte list" where
  "bytes_of s = map (\<lambda>c. of_nat (of_char c)) s"

text \<open>\<^verbatim>\<open>END_BYTES = b"\r"\<close>\<close>

definition END_BYTES :: "byte list" where
  "END_BYTES = [0x0D]"

text \<open>\<^verbatim>\<open>buf.endswith(suffix)\<close>\<close>

definition endswith :: "'a list \<Rightarrow> 'a list \<Rightarrow> bool" where
  "endswith b sfx \<longleftrightarrow> length sfx \<le> length b \<and> drop (length b - length sfx) b = sfx"

subsection \<open>UTF-8 decoding with an error handler\<close>

text \<open>
  \<^verbatim>\<open>bytes(buf).decode(errors="ignore")\<close> decodes UTF-8 (the default encoding). The
  interpreter's decoder reads one character at a time; where the bytes are not a
  well-formed sequence it reports an error range and asks the handler named by
  \<^verbatim>\<open>errors\<close> what to do: \<^verbatim>\<open>strict\<close> raises \<^verbatim>\<open>UnicodeDecodeError\<close>, \<^verbatim>\<open>ignore\<close> skips the
  range, \<^verbatim>\<open>replace\<close> puts U+FFFD in its place. The error range is one byte for an invalid
  start byte, the well-formed prefix before an invalid continuation byte, and everything
  that is left when the data ends inside a sequence.
\<close>

datatype errors = Strict | Ignore | Replace

datatype error =
    UnicodeDecodeError
  | FileNotFoundError pystr
  | ZeroDivisionError
  | ValueError
  | BarcodeError
  | RuntimeError
  | SerialException

datatype utf8_step = Char codepoint nat | Invalid nat

definition is_cont :: "nat \<Rightarrow> bool" where
  "is_cont b \<longleftrightarrow> 0x80 \<le> b \<and> b < 0xC0"

text \<open>
  One step of the decoder on a non-empty input whose first byte is \<open>ch\<close> and whose
  other bytes are \<open>r\<close>: the character and the number of bytes it takes, or the length
  of the error range.
\<close>

definition utf8_first :: "nat \<Rightarrow> nat list \<Rightarrow> utf8_step" where
  "utf8_first ch r =
    (if ch < 0x80 then Char ch 1
     else if ch < 0xC2 then Invalid 1
     else if ch < 0xE0 then
       (case r of
          [] \<Rightarrow> Invalid 1
        | b1 # _ \<Rightarrow>
            if \<not> is_cont b1 then Invalid 1
            else Char ((ch mod 0x20) * 0x40 + b1 mod 0x40) 2)
     else if ch < 0xF0 then
       (case r of
          [] \<Rightarrow> Invalid 1
        | b1 # r1 \<Rightarrow>
            if \<not> is_cont b1 \<or> (if b1 < 0xA0 then ch = 0xE0 else ch = 0xED) then Invalid 1
            else (case r1 of
               [] \<Rightarrow> Invalid 2
             | b2 # _ \<Rightarrow>
                 if \<not> is_cont b2 then Invalid 2
                 else Char ((ch mod 0x10) * 0x1000 + (b1 mod 0x40) * 0x40 + b2 mod 0x40) 3))
     else if ch < 0xF5 then
       (case r of
          [] \<Rightarrow> Invalid 1
        | b1 # r1 \<Rightarrow>
            if \<not> is_cont b1 \<or> (if b1 < 0x90 then ch = 0xF0 else ch = 0xF4) then Invalid 1
            else (case r1 of
               [] \<Rightarrow> Invalid 2
             | b2 # r2 \<Rightarrow>
                 if \<not> is_cont b2 then Invalid 2
                 else (case r2 of
                    [] \<Rightarrow> Invalid 3
                  | b3 # _ \<Rightarrow>
                      if \<not> is_cont b3 then Invalid 3
                      else Char ((ch mod 0x08) * 0x40000 + (b1 mod 0x40) * 0x1000
                                 + (b2 mod 0x40) * 0x40 + b3 mod 0x40) 4)))
     else Invalid 1)"

fun utf8_decode :: "errors \<Rightarrow> byte list \<Rightarrow> error + pystr" where
  "utf8_decode h [] = Inr []"
| "utf8_decode h (b # bs) =
    (case utf8_first (unat b) (map unat bs) of
       Char c n \<Rightarrow>
         (case utf8_decode h (drop (n - 1) bs) of
            Inl e \<Rightarrow> Inl e
          | Inr s \<Rightarrow> Inr (c # s))
     | Invalid n \<Rightarrow>
         (case h of
            Strict \<Rightarrow> Inl UnicodeDecodeError
          | Ignore \<Rightarrow> utf8_decode h (drop (n - 1) bs)
          | Replace \<Rightarrow>
              (case utf8_decode h (drop (n - 1) bs) of
                 Inl e \<Rightarrow> Inl e
               | Inr s \<Rightarrow> Inr (0xFFFD # s))))"

subsection \<open>Whitespace and \<^verbatim>\<open>str.strip\<close>\<close>

text \<open>
  \<^verbatim>\<open>str.strip()\<close> with no argument removes the leading and trailing characters for
  which \<^verbatim>\<open>str.isspace\<close> holds. The table is the interpreter's (Unicode 14).
\<close>

definition isspace :: "codepoint \<Rightarrow> bool" where
  "isspace c \<longleftrightarrow>
     (0x09 \<le> c \<and> c \<le> 0x0D) \<or> (0x1C \<le> c \<and> c \<le> 0x20) \<or> c = 0x85 \<or> c = 0xA0
     \<or> c = 0x1680 \<or> (0x2000 \<le> c \<and> c \<le> 0x200A) \<or> c = 0x2028 \<or> c = 0x2029
     \<or> c = 0x202F \<or> c = 0x205F \<or> c = 0x3000"

definition strip :: "pystr \<Rightarrow> pystr" where
  "strip s = rev (dropWhile isspace (rev (dropWhile isspace s)))"

section \<open>The identifier pattern\<close>

text \<open>
  \<^verbatim>\<open>re.search(r"/m/(\d{6,12})/", line)\<close>. The pattern is a \<^verbatim>\<open>str\<close> compiled without
  \<^verbatim>\<open>re.ASCII\<close>, so \<^verbatim>\<open>\d\<close> matches every Unicode decimal digit: the characters for which
  \<^verbatim>\<open>str.isdecimal\<close> holds. They come in blocks of ten consecutive code points; the list
  holds the first code point of each block (Unicode 14, the ASCII digits first).
\<close>

definition decimal_blocks :: "codepoint list" where
  "decimal_blocks =
    [0x30, 0x660, 0x6f0, 0x7c0, 0x966, 0x9e6, 0xa66, 0xae6, 0xb66, 0xbe6, 0xc66, 0xce6,
     0xd66, 0xde6, 0xe50, 0xed0, 0xf20, 0x1040, 0x1090, 0x17e0, 0x1810, 0x1946, 0x19d0,
     0x1a80, 0x1a90, 0x1b50, 0x1bb0, 0x1c40, 0x1c50, 0xa620, 0xa8d0, 0xa900, 0xa9d0,
     0xa9f0, 0xaa50, 0xabf0, 0xff10, 0x104a0, 0x10d30, 0x11066, 0x110f0, 0x11136,
     0x111d0, 0x112f0, 0x11450, 0x114d0, 0x11650, 0x116c0, 0x11730, 0x118e0, 0x11950,
     0x11c50, 0x11d50, 0x11da0, 0x16a60, 0x16ac0, 0x16b50, 0x1d7ce, 0x1d7d8, 0x1d7e2,
     0x1d7ec, 0x1d7f6, 0x1e140, 0x1e2f0, 0x1e950, 0x1fbf0]"

definition isdecimal :: "codepoint \<Rightarrow> bool" where
  "isdecimal c \<longleftrightarrow> list_ex (\<lambda>lo. lo \<le> c \<and> c < lo + 10) decimal_blocks"

text \<open>A literal of the pattern: the rest of the subject after it, if it is there.\<close>

fun match_literal :: "pystr \<Rightarrow> pystr \<Rightarrow> pystr option" where
  "match_literal [] s = Some s"
| "match_literal (p # ps) [] = None"
| "match_literal (p # ps) (c # cs) = (if p = c then match_literal ps cs else None)"

text \<open>
  The greedy repeat \<^verbatim>\<open>\d{6,12}\<close> first takes as many digits as it can, at most its upper
  bound.
\<close>

definition greedy_digits :: "nat \<Rightarrow> pystr \<Rightarrow> nat" where
  "greedy_digits hi s = length (takeWhile isdecimal (take hi s))"

text \<open>
  With \<open>n\<close> digits taken, the engine tries the rest of the pattern, the literal
  \<^verbatim>\<open>/\<close>; when that fails it gives one digit back and tries again, down to the lower
  bound. The value is group 1.
\<close>

fun backtrack :: "nat \<Rightarrow> nat \<Rightarrow> pystr \<Rightarrow> pystr option" where
  "backtrack lo n s =
    (if n < lo then None
     else (case match_literal (str_of ''/'') (drop n s) of
        Some _ \<Rightarrow> Some (take n s)
      | None \<Rightarrow> (if n = 0 then None else backtrack lo (n - 1) s)))"

declare backtrack.simps [simp del]

definition match_here :: "pystr \<Rightarrow> pystr option" where
  "match_here s =
    (case match_literal (str_of ''/m/'') s of
       None \<Rightarrow> None
     | Some r \<Rightarrow> backtrack 6 (greedy_digits 12 r) r)"

text \<open>\<^verbatim>\<open>re.search\<close> tries the start positions from left to right and stops at the first match.\<close>

fun re_search :: "pystr \<Rightarrow> pystr option" where
  "re_search [] = match_here []"
| "re_search (c # cs) =
    (case match_here (c # cs) of
       Some g \<Rightarrow> Some g
     | None \<Rightarrow> re_search cs)"

section \<open>Label images\<close>

text \<open>
  An image of the imaging library: its mode, its size in pixels and what has been drawn
  on it, in order. Drawing and pasting change the content of the destination in place and
  never its size; what falls outside the destination is clipped.
\<close>

datatype img_mode = Mode1 | RGB | RGBA

datatype font = FONT_BIG | FONT_MED | FONT_BAR

datatype img = Image (mode: img_mode) (width: int) (height: int) (content: "layer list")
and layer =
    Fill int
  | Pixels pystr
  | Resampled img
  | Bars pystr
  | Text "int \<times> int" pystr font
  | Pasted img "int \<times> int" bool

text \<open>
  What the program takes from outside: the image files, the barcode generator, the font
  metrics and the serial device. \<open>float_height width_px w h\<close> is
  \<^verbatim>\<open>int(h * (width_px / w))\<close> in the interpreter's double arithmetic.
\<close>

record env =
  open_image :: "pystr \<Rightarrow> error + img"
  float_height :: "int \<Rightarrow> int \<Rightarrow> int \<Rightarrow> int"
  generate_barcode :: "pystr \<Rightarrow> error + img"
  getbbox :: "font \<Rightarrow> pystr \<Rightarrow> int \<times> int \<times> int \<times> int"
  serial_open :: "pystr \<Rightarrow> bool"

definition PREFIX :: pystr where "PREFIX = str_of ''UK''"
definition LABEL_W :: int where "LABEL_W = 543"
definition LABEL_H :: int where "LABEL_H = 248"
definition MARGIN :: int where "MARGIN = 16"
definition TEXT1 :: pystr where "TEXT1 = str_of ''UBIQOD KEY''"
definition TEXT2 :: pystr where "TEXT2 = str_of ''P/N : SKPF000252''"
definition OUT_DIR :: pystr where "OUT_DIR = str_of ''barcodes''"

text \<open>\<^verbatim>\<open>Image.new(mode, size, color)\<close> refuses a negative size.\<close>

definition image_new :: "img_mode \<Rightarrow> int \<times> int \<Rightarrow> int \<Rightarrow> error + img" where
  "image_new m sz colour =
    (if fst sz < 0 \<or> snd sz < 0 then Inl ValueError
     else Inr (Image m (fst sz) (snd sz) [Fill colour]))"

definition convert :: "img_mode \<Rightarrow> img \<Rightarrow> img" where
  "convert m im = Image m (width im) (height im) (content im)"

text \<open>\<^verbatim>\<open>img.resize(size, Image.LANCZOS)\<close> refuses a side below one pixel.\<close>

definition resize :: "img \<Rightarrow> int \<times> int \<Rightarrow> error + img" where
  "resize im sz =
    (if fst sz < 1 \<or> snd sz < 1 then Inl ValueError
     else Inr (Image (mode im) (fst sz) (snd sz) [Resampled im]))"

definition paste :: "img \<Rightarrow> img \<Rightarrow> int \<times> int \<Rightarrow> bool \<Rightarrow> img" where
  "paste dst src pos masked =
     Image (mode dst) (width dst) (height dst) (content dst @ [Pasted src pos masked])"

definition draw_text :: "img \<Rightarrow> int \<times> int \<Rightarrow> pystr \<Rightarrow> font \<Rightarrow> img" where
  "draw_text dst pos txt f =
     Image (mode dst) (width dst) (height dst) (content dst @ [Text pos txt f])"

definition load_logo :: "env \<Rightarrow> pystr \<Rightarrow> int \<Rightarrow> error + img" where
  "load_logo e path width_px =
    (case open_image e path of
       Inl err \<Rightarrow> Inl err
     | Inr raw \<Rightarrow>
         (let im = convert RGBA raw in
          if width im \<noteq> width_px then
            (if width im = 0 then Inl ZeroDivisionError
             else resize im (width_px, float_height e width_px (width im) (height im)))
          else Inr im))"

definition make_barcode :: "env \<Rightarrow> pystr \<Rightarrow> error + img" where
  "make_barcode e code =
    (case generate_barcode e code of
       Inl err \<Rightarrow> Inl err
     | Inr generated \<Rightarrow>
         (let symbol = convert Mode1 generated;
              w_txt = fst (snd (snd (getbbox e FONT_BAR code)));
              h_txt = snd (snd (snd (getbbox e FONT_BAR code)))
          in case image_new Mode1 (width symbol, height symbol + h_txt + 8) 1 of
               Inl err \<Rightarrow> Inl err
             | Inr canvas \<Rightarrow>
                 Inr (draw_text (paste canvas symbol (0, 0) False)
                        ((width symbol - w_txt) div 2, height symbol + 4) code FONT_BAR)))"

definition compose_label :: "env \<Rightarrow> pystr \<Rightarrow> error + img" where
  "compose_label e uid =
    (case image_new RGB (LABEL_W, LABEL_H) 255 of
       Inl err \<Rightarrow> Inl err
     | Inr blank \<Rightarrow>
    (let label1 = draw_text blank (MARGIN, MARGIN) TEXT1 FONT_BIG;
         label2 = draw_text label1 (MARGIN, MARGIN + 38) TEXT2 FONT_MED
     in case load_logo e (str_of ''img/taqt.png'') 190 of
          Inl err \<Rightarrow> Inl err
        | Inr taqt \<Rightarrow>
     (case load_logo e (str_of ''img/WEEE.png'') 70 of
          Inl err \<Rightarrow> Inl err
        | Inr weee \<Rightarrow>
     (case load_logo e (str_of ''img/CE.png'') 80 of
          Inl err \<Rightarrow> Inl err
        | Inr ce \<Rightarrow>
     (let label3 = paste label2 taqt (LABEL_W - width taqt - MARGIN, MARGIN) True;
          gap = 4;
          total_width = width weee + gap + width ce;
          x_start = LABEL_W - total_width - MARGIN;
          y_logos = LABEL_H - max (height weee) (height ce) - MARGIN;
          label4 = paste label3 weee (x_start, y_logos) True;
          label5 = paste label4 ce (x_start + width weee + gap, y_logos) True;
          full_code = PREFIX @ uid
      in case make_barcode e full_code of
           Inl err \<Rightarrow> Inl err
         | Inr barcode \<Rightarrow>
             Inr (paste label5 barcode (MARGIN, LABEL_H - height barcode - MARGIN) False))))))"

section \<open>Port selection\<close>

record port_info =
  device :: pystr

text \<open>
  The module constant \<^verbatim>\<open>PORT\<close> is \<^verbatim>\<open>None\<close> in the source; it is a parameter of the
  functions that read it, so that both settings can be stated. \<^verbatim>\<open>if PORT:\<close> holds for a
  string that is not empty.
\<close>

definition PORT :: "pystr option" where "PORT = None"

definition truthy :: "pystr option \<Rightarrow> bool" where
  "truthy p \<longleftrightarrow> (case p of None \<Rightarrow> False | Some s \<Rightarrow> s \<noteq> [])"

definition autodetect_port :: "pystr option \<Rightarrow> port_info list \<Rightarrow> error + pystr" where
  "autodetect_port port ports =
    (if truthy port then Inr (the port)
     else if length ports = 1 then Inr (device (ports ! 0))
     else Inl RuntimeError)"

section \<open>The main loop\<close>

record datetime =
  year :: nat
  month :: nat
  day :: nat
  hour :: nat
  minute :: nat
  second :: nat

definition digit :: "nat \<Rightarrow> codepoint" where
  "digit n = 48 + n mod 10"

definition pad2 :: "nat \<Rightarrow> pystr" where
  "pad2 n = [digit (n div 10), digit n]"

definition pad4 :: "nat \<Rightarrow> pystr" where
  "pad4 n = [digit (n div 1000), digit (n div 100), digit (n div 10), digit n]"

text \<open>\<^verbatim>\<open>strftime("%Y%m%d_%H%M%S")\<close>, for the four-digit years the clock gives.\<close>

definition strftime :: "datetime \<Rightarrow> pystr" where
  "strftime t = pad4 (year t) @ pad2 (month t) @ pad2 (day t) @ str_of ''_''
                @ pad2 (hour t) @ pad2 (minute t) @ pad2 (second t)"

datatype level = DEBUG | INFO | ERROR

datatype message =
    Ready pystr
  | Ignored pystr
  | Saved pystr pystr
  | Stopped
  | Failed error

record saved_file =
  directory :: pystr
  name :: pystr
  picture :: img
  dpi :: "int \<times> int"

record state =
  buf :: "byte list"
  files :: "saved_file list"
  logged :: "(level \<times> message) list"

definition init :: state where
  "init = \<lparr>buf = [], files = [], logged = []\<rparr>"

text \<open>
  Lines 121 to 124: append what was read, and when the buffer ends with the terminator,
  decode it, strip it and clear the buffer. The value is the new buffer and the line, if
  one was completed.
\<close>

definition frame :: "byte list \<Rightarrow> byte list \<Rightarrow> error + (byte list \<times> pystr option)" where
  "frame b0 chunk =
    (let b = b0 @ chunk in
     if endswith b END_BYTES then
       (case utf8_decode Ignore b of
          Inl err \<Rightarrow> Inl err
        | Inr decoded \<Rightarrow> Inr ([], Some (strip decoded)))
     else Inr (b, None))"

text \<open>Lines 126 to 137: what the loop does with a completed line.\<close>

definition handle_line :: "env \<Rightarrow> datetime \<Rightarrow> state \<Rightarrow> pystr \<Rightarrow> error + state" where
  "handle_line e now st line =
    (case re_search line of
       None \<Rightarrow> Inr (st\<lparr>logged := logged st @ [(DEBUG, Ignored line)]\<rparr>)
     | Some uid \<Rightarrow>
         (case compose_label e uid of
            Inl err \<Rightarrow> Inl err
          | Inr im \<Rightarrow>
              (let ts = strftime now;
                   file = str_of ''label_'' @ PREFIX @ uid @ str_of ''_'' @ ts @ str_of ''.png''
               in Inr (st\<lparr>files := files st @
                               [\<lparr>directory = OUT_DIR, name = file, picture = im, dpi = (300, 300)\<rparr>],
                           logged := logged st @ [(INFO, Saved (PREFIX @ uid) file)]\<rparr>))))"

text \<open>
  One pass through the body of \<^verbatim>\<open>while True\<close>, on what \<^verbatim>\<open>ser.read\<close> returned. An
  exception leaves the body with the state as it was when it was raised.
\<close>

definition iteration :: "env \<Rightarrow> state \<Rightarrow> byte list \<Rightarrow> datetime \<Rightarrow> (error \<times> state) + state" where
  "iteration e st chunk now =
    (case frame (buf st) chunk of
       Inl err \<Rightarrow> Inl (err, st\<lparr>buf := buf st @ chunk\<rparr>)
     | Inr (b, None) \<Rightarrow> Inr (st\<lparr>buf := b\<rparr>)
     | Inr (b, Some line) \<Rightarrow>
         (case handle_line e now (st\<lparr>buf := b\<rparr>) line of
            Inl err \<Rightarrow> Inl (err, st\<lparr>buf := b\<rparr>)
          | Inr st' \<Rightarrow> Inr st'))"

text \<open>
  What happens at the serial port, one event for each pass: a read that returns bytes
  (none, on a timeout) at a given time of the clock, a read that fails, or the operator's
  interrupt. The loop has no exit of its own: when the events so far are used up it is
  still running.
\<close>

datatype event = Read "byte list" datetime | ReadError | Interrupt

datatype outcome = Running state | Exited int state

fun loop :: "env \<Rightarrow> state \<Rightarrow> event list \<Rightarrow> outcome" where
  "loop e st [] = Running st"
| "loop e st (Read chunk now # evs) =
    (case iteration e st chunk now of
       Inl (err, st') \<Rightarrow> Exited 1 (st'\<lparr>logged := logged st' @ [(ERROR, Failed err)]\<rparr>)
     | Inr st' \<Rightarrow> loop e st' evs)"
| "loop e st (ReadError # evs) =
    Exited 1 (st\<lparr>logged := logged st @ [(ERROR, Failed SerialException)]\<rparr>)"
| "loop e st (Interrupt # evs) =
    Exited 0 (st\<lparr>logged := logged st @ [(INFO, Stopped)]\<rparr>)"

text \<open>
  \<^verbatim>\<open>main\<close>: the port is chosen outside the \<^verbatim>\<open>try\<close>, so an error there is not caught and
  ends the process with the interpreter's status 1 and nothing logged.
\<close>

definition main :: "pystr option \<Rightarrow> env \<Rightarrow> port_info list \<Rightarrow> event list \<Rightarrow> outcome" where
  "main port e ports evs =
    (case autodetect_port port ports of
       Inl err \<Rightarrow> Exited 1 init
     | Inr p \<Rightarrow>
         (let st = init\<lparr>logged := [(INFO, Ready p)]\<rparr> in
          if serial_open e p then loop e st evs
          else Exited 1 (st\<lparr>logged := logged st @ [(ERROR, Failed SerialException)]\<rparr>)))"

text \<open>The lines the framing of the loop completes, and the buffer it is left with.\<close>

fun emitted :: "byte list \<Rightarrow> byte list list \<Rightarrow> pystr list" where
  "emitted b [] = []"
| "emitted b (chunk # cs) =
    (case frame b chunk of
       Inl err \<Rightarrow> []
     | Inr (b', None) \<Rightarrow> emitted b' cs
     | Inr (b', Some line) \<Rightarrow> line # emitted b' cs)"

fun pending :: "byte list \<Rightarrow> byte list list \<Rightarrow> byte list" where
  "pending b [] = b"
| "pending b (chunk # cs) =
    (case frame b chunk of
       Inl err \<Rightarrow> b @ chunk
     | Inr (b', _) \<Rightarrow> pending b' cs)"

section \<open>The specification's notions\<close>

text \<open>
  A digit run of the pattern, and an occurrence of \<^verbatim>\<open>/m/\<close>, the run \<open>ds\<close> and \<^verbatim>\<open>/\<close> in
  a line from index \<open>i\<close>.
\<close>

definition digit_run :: "pystr \<Rightarrow> bool" where
  "digit_run ds \<longleftrightarrow> 6 \<le> length ds \<and> length ds \<le> 12 \<and> list_all isdecimal ds"

definition occurrence :: "pystr \<Rightarrow> nat \<Rightarrow> pystr \<Rightarrow> bool" where
  "occurrence line i ds \<longleftrightarrow>
     take (length ds + 4) (drop i line) = str_of ''/m/'' @ ds @ str_of ''/''"

definition ascii_digit :: "codepoint \<Rightarrow> bool" where
  "ascii_digit c \<longleftrightarrow> 0x30 \<le> c \<and> c \<le> 0x39"

text \<open>
  The form as the specification words it, with ASCII digits: whether a line holds
  \<^verbatim>\<open>/m/\<close>, 6 to 12 ASCII digits and \<^verbatim>\<open>/\<close> anywhere.
\<close>

definition ascii_run :: "pystr \<Rightarrow> bool" where
  "ascii_run ds \<longleftrightarrow> 6 \<le> length ds \<and> length ds \<le> 12 \<and> list_all ascii_digit ds"

definition contains_ascii_form :: "pystr \<Rightarrow> bool" where
  "contains_ascii_form line \<longleftrightarrow>
     list_ex (\<lambda>i. list_ex (\<lambda>n. ascii_run (take n (drop (i + 3) line))
                               \<and> occurrence line i (take n (drop (i + 3) line))) [6..<13])
             [0..<length line]"

text \<open>
  Splitting a byte stream on the terminator: the records that are complete, without their
  terminator, and the lines they decode to.
\<close>

fun split_terminated :: "byte list \<Rightarrow> byte list \<Rightarrow> byte list list" where
  "split_terminated acc [] = []"
| "split_terminated acc (b # bs) =
    (if b = 0x0D then rev acc # split_terminated [] bs
     else split_terminated (b # acc) bs)"

definition decode_text :: "byte list \<Rightarrow> pystr" where
  "decode_text bs = (case utf8_decode Ignore bs of Inl err \<Rightarrow> [] | Inr s \<Rightarrow> s)"

text \<open>
  A byte string divides, in order, into the parts the decoder reads one after the other:
  a well-formed sequence with the character it encodes, or an error range, with nothing.
  \<open>replaced\<close> is what the \<^verbatim>\<open>replace\<close> handler makes of a part.
\<close>

fun utf8_parts :: "byte list \<Rightarrow> (byte list \<times> codepoint option) list" where
  "utf8_parts [] = []"
| "utf8_parts (b # bs) =
    (case utf8_first (unat b) (map unat bs) of
       Char c n \<Rightarrow> (b # take (n - 1) bs, Some c) # utf8_parts (drop (n - 1) bs)
     | Invalid n \<Rightarrow> (b # take (n - 1) bs, None) # utf8_parts (drop (n - 1) bs))"

definition replaced :: "byte list \<times> codepoint option \<Rightarrow> codepoint" where
  "replaced part = (case snd part of Some c \<Rightarrow> c | None \<Rightarrow> 0xFFFD)"

definition split_lines :: "byte list \<Rightarrow> pystr list" where
  "split_lines bs = map (\<lambda>r. strip (decode_text r)) (split_terminated [] bs)"

section \<open>Example surroundings\<close>

text \<open>
  The three logo files the label needs, and surroundings to run the program in: one where
  every file opens as a 380 by 120 image and the barcode generator returns a symbol that
  grows with its payload, one where no image file can be opened, and a time of the clock.
\<close>

definition logo_paths :: "pystr list" where
  "logo_paths = [str_of ''img/taqt.png'', str_of ''img/WEEE.png'', str_of ''img/CE.png'']"

definition example_env :: env where
  "example_env =
    \<lparr>open_image = (\<lambda>p. Inr (Image RGB 380 120 [Pixels p])),
     float_height = (\<lambda>w iw ih. (ih * w) div iw),
     generate_barcode = (\<lambda>code. Inr (Image RGB (33 * int (length code) + 105) 60 [Bars code])),
     getbbox = (\<lambda>f t. (0, 0, 14 * int (length t), 22)),
     serial_open = (\<lambda>p. True)\<rparr>"

definition missing_logo_env :: env where
  "missing_logo_env = example_env\<lparr>open_image := (\<lambda>p. Inl (FileNotFoundError p))\<rparr>"

definition example_time :: datetime where
  "example_time = \<lparr>year = 2024, month = 3, day = 7, hour = 9, minute = 5, second = 42\<rparr>"

section \<open>Properties of the pattern matcher\<close>

lemma slash_not_decimal: "\<not> isdecimal 47"
  by (simp add: isdecimal_def decimal_blocks_def)

lemma match_literal_iff: "match_literal p s = Some r \<longleftrightarrow> s = p @ r"
  by (induction p s rule: match_literal.induct) auto

lemma match_literal_None: "match_literal p s = None \<longleftrightarrow> (\<forall>r. s \<noteq> p @ r)"
  using match_literal_iff [of p s] by (cases "match_literal p s") auto

lemma match_slash: "match_literal (str_of ''/'') s \<noteq> None \<longleftrightarrow> (s \<noteq> [] \<and> hd s = 47)"
  by (cases s) (auto simp: str_of_def)

lemma backtrack_digits:
  "\<forall>k<n. k < length s \<and> isdecimal (s ! k) \<Longrightarrow>
   backtrack lo n s =
     (if lo \<le> n \<and> match_literal (str_of ''/'') (drop n s) \<noteq> None then Some (take n s) else None)"
proof (induction lo n s rule: backtrack.induct)
  case (1 lo n s)
  show ?case
  proof (cases "n < lo")
    case True
    then show ?thesis by (subst backtrack.simps) simp
  next
    case ge: False
    show ?thesis
    proof (cases "match_literal (str_of ''/'') (drop n s)")
      case (Some a)
      with ge show ?thesis by (subst backtrack.simps) simp
    next
      case None
      show ?thesis
      proof (cases "n = 0")
        case True
        with None ge show ?thesis by (subst backtrack.simps) simp
      next
        case False
        have prev: "\<forall>k<n - 1. k < length s \<and> isdecimal (s ! k)"
          using "1.prems" by simp
        have dig: "n - 1 < length s" "isdecimal (s ! (n - 1))"
          using "1.prems" False by auto
        have "drop (n - 1) s = s ! (n - 1) # drop n s"
          using dig(1) False by (metis Cons_nth_drop_Suc Suc_pred' not_gr_zero)
        then have no: "match_literal (str_of ''/'') (drop (n - 1) s) = None"
          using dig(2) slash_not_decimal by (auto simp: str_of_def)
        have "backtrack lo (n - 1) s = None"
          using "1.IH" [OF ge None False prev] no by simp
        with None ge False show ?thesis by (subst backtrack.simps) simp
      qed
    qed
  qed
qed

lemma greedy_digits_props:
  "greedy_digits hi s \<le> hi" "greedy_digits hi s \<le> length s"
  "k < greedy_digits hi s \<Longrightarrow> isdecimal (s ! k)"
proof -
  let ?t = "takeWhile isdecimal (take hi s)"
  have "length ?t \<le> length (take hi s)" by (rule length_takeWhile_le)
  then show "greedy_digits hi s \<le> hi" "greedy_digits hi s \<le> length s"
    by (simp_all add: greedy_digits_def)
  assume k: "k < greedy_digits hi s"
  then have "?t ! k \<in> set ?t" by (simp add: greedy_digits_def)
  then have "isdecimal (?t ! k)" by (rule set_takeWhileD [THEN conjunct2])
  moreover have "?t ! k = take hi s ! k"
    using k by (simp add: greedy_digits_def takeWhile_nth)
  ultimately show "isdecimal (s ! k)" using k \<open>greedy_digits hi s \<le> hi\<close> by simp
qed

lemma greedy_digits_run:
  assumes "length ds \<le> hi" "list_all isdecimal ds"
  shows "greedy_digits hi (ds @ 47 # post) = length ds"
proof -
  have "take hi (ds @ 47 # post) = ds @ take (hi - length ds) (47 # post)"
    using assms(1) by simp
  moreover have "takeWhile isdecimal (ds @ take (hi - length ds) (47 # post)) = ds"
    using assms(2) slash_not_decimal
    by (cases "hi - length ds") (auto simp: takeWhile_append2 list_all_iff)
  ultimately show ?thesis by (simp add: greedy_digits_def)
qed

lemma occurrence_iff:
  "occurrence line i ds \<longleftrightarrow> (\<exists>post. drop i line = str_of ''/m/'' @ ds @ str_of ''/'' @ post)"
proof
  assume "occurrence line i ds"
  then have "take (length ds + 4) (drop i line) = str_of ''/m/'' @ ds @ str_of ''/''"
    by (simp add: occurrence_def)
  then have "drop i line = (str_of ''/m/'' @ ds @ str_of ''/'') @ drop (length ds + 4) (drop i line)"
    by (metis append_take_drop_id)
  then show "\<exists>post. drop i line = str_of ''/m/'' @ ds @ str_of ''/'' @ post"
    by auto
next
  assume "\<exists>post. drop i line = str_of ''/m/'' @ ds @ str_of ''/'' @ post"
  then obtain post where p: "drop i line = (str_of ''/m/'' @ ds @ str_of ''/'') @ post"
    by auto
  have "length (str_of ''/m/'' @ ds @ str_of ''/'') = length ds + 4"
    by (simp add: str_of_def)
  then show "occurrence line i ds"
    unfolding occurrence_def p by (metis append_eq_conv_conj)
qed

lemma match_here_iff:
  "match_here s = Some ds \<longleftrightarrow> digit_run ds \<and> occurrence s 0 ds"
proof
  assume m: "match_here s = Some ds"
  then obtain r where r: "s = str_of ''/m/'' @ r"
    and b: "backtrack 6 (greedy_digits 12 r) r = Some ds"
    by (auto simp: match_here_def match_literal_iff split: option.splits)
  let ?g = "greedy_digits 12 r"
  have all: "\<forall>k<?g. k < length r \<and> isdecimal (r ! k)"
    using greedy_digits_props [where hi=12 and s=r] by auto
  from b backtrack_digits [OF all, of 6]
  have g6: "6 \<le> ?g" and sl: "match_literal (str_of ''/'') (drop ?g r) \<noteq> None"
    and ds: "ds = take ?g r"
    by (auto split: if_splits)
  from sl obtain post where post: "drop ?g r = str_of ''/'' @ post"
    by (auto simp: match_literal_iff)
  have len: "length ds = ?g" using ds greedy_digits_props(2) [where hi=12 and s=r] by simp
  have "list_all isdecimal ds"
    using all ds by (auto simp: list_all_length)
  moreover have "r = ds @ str_of ''/'' @ post"
    using ds post by (metis append_take_drop_id)
  ultimately show "digit_run ds \<and> occurrence s 0 ds"
    using g6 len greedy_digits_props(1) [where hi=12 and s=r] r
    by (auto simp: digit_run_def occurrence_iff)
next
  assume "digit_run ds \<and> occurrence s 0 ds"
  then obtain post where s: "s = str_of ''/m/'' @ ds @ 47 # post"
    and run: "6 \<le> length ds" "length ds \<le> 12" "list_all isdecimal ds"
    by (auto simp: digit_run_def occurrence_iff str_of_def)
  let ?r = "ds @ 47 # post"
  have g: "greedy_digits 12 ?r = length ds"
    using run by (simp add: greedy_digits_run)
  have all: "\<forall>k<length ds. k < length ?r \<and> isdecimal (?r ! k)"
    using run(3) by (auto simp: list_all_length nth_append)
  have "backtrack 6 (length ds) ?r = Some ds"
    using backtrack_digits [OF all, of 6] run(1) by (simp add: str_of_def)
  moreover have "match_literal (str_of ''/m/'') s = Some ?r"
    using s by (simp add: match_literal_iff)
  ultimately show "match_here s = Some ds"
    using g by (simp add: match_here_def)
qed

lemma occurrence_Cons: "occurrence (c # cs) (Suc i) ds = occurrence cs i ds"
  by (simp add: occurrence_def)


lemma occurrence_Nil: "\<not> occurrence [] i ds"
  by (simp add: occurrence_def str_of_def)

lemma match_here_None_iff:
  "match_here s = None \<longleftrightarrow> (\<forall>ds. \<not> (digit_run ds \<and> occurrence s 0 ds))"
proof (cases "match_here s")
  case None
  then show ?thesis using match_here_iff [of s] by auto
next
  case (Some g)
  then show ?thesis using match_here_iff [of s g] by auto
qed

lemma re_search_Some_iff:
  "re_search line = Some ds \<longleftrightarrow>
     (\<exists>i. digit_run ds \<and> occurrence line i ds
          \<and> (\<forall>j<i. \<forall>d. \<not> (digit_run d \<and> occurrence line j d)))"
proof (induction line)
  case Nil
  have "match_here [] = None" by (simp add: match_here_def str_of_def)
  then show ?case by (simp add: occurrence_Nil)
next
  case (Cons c cs)
  show ?case
  proof (cases "match_here (c # cs)")
    case None
    then have no0: "\<not> (digit_run d \<and> occurrence (c # cs) 0 d)" for d
      by (simp add: match_here_None_iff)
    have eq: "re_search (c # cs) = re_search cs" using None by simp
    show ?thesis
    proof
      assume "re_search (c # cs) = Some ds"
      then obtain i where i: "digit_run ds" "occurrence cs i ds"
        "\<forall>j<i. \<forall>d. \<not> (digit_run d \<and> occurrence cs j d)"
        using eq Cons.IH by auto
      have "\<forall>j<Suc i. \<forall>d. \<not> (digit_run d \<and> occurrence (c # cs) j d)"
      proof (intro allI impI)
        fix j d assume "j < Suc i"
        then show "\<not> (digit_run d \<and> occurrence (c # cs) j d)"
          using no0 i(3) by (cases j) (auto simp: occurrence_Cons)
      qed
      with i(1,2) show "\<exists>i. digit_run ds \<and> occurrence (c # cs) i ds
          \<and> (\<forall>j<i. \<forall>d. \<not> (digit_run d \<and> occurrence (c # cs) j d))"
        by (intro exI [of _ "Suc i"]) (simp add: occurrence_Cons)
    next
      assume "\<exists>i. digit_run ds \<and> occurrence (c # cs) i ds
          \<and> (\<forall>j<i. \<forall>d. \<not> (digit_run d \<and> occurrence (c # cs) j d))"
      then obtain i where i: "digit_run ds" "occurrence (c # cs) i ds"
        "\<forall>j<i. \<forall>d. \<not> (digit_run d \<and> occurrence (c # cs) j d)"
        by auto
      from i(1,2) no0 obtain k where k: "i = Suc k" by (cases i) auto
      have "\<forall>j<k. \<forall>d. \<not> (digit_run d \<and> occurrence cs j d)"
      proof (intro allI impI)
        fix j d assume "j < k"
        then have "Suc j < i" using k by simp
        with i(3) show "\<not> (digit_run d \<and> occurrence cs j d)"
          by (auto simp: occurrence_Cons)
      qed
      with i(1,2) k have "re_search cs = Some ds"
        using Cons.IH by (auto simp: occurrence_Cons)
      then show "re_search (c # cs) = Some ds" using eq by simp
    qed
  next
    case (Some g)
    then have g: "digit_run g" "occurrence (c # cs) 0 g"
      by (simp_all add: match_here_iff)
    have eq: "re_search (c # cs) = Some g" using Some by simp
    show ?thesis
    proof
      assume "re_search (c # cs) = Some ds"
      then have "ds = g" using eq by simp
      with g show "\<exists>i. digit_run ds \<and> occurrence (c # cs) i ds
          \<and> (\<forall>j<i. \<forall>d. \<not> (digit_run d \<and> occurrence (c # cs) j d))"
        by (intro exI [of _ 0]) simp
    next
      assume "\<exists>i. digit_run ds \<and> occurrence (c # cs) i ds
          \<and> (\<forall>j<i. \<forall>d. \<not> (digit_run d \<and> occurrence (c # cs) j d))"
      then obtain i where i: "digit_run ds" "occurrence (c # cs) i ds"
        "\<forall>j<i. \<forall>d. \<not> (digit_run d \<and> occurrence (c # cs) j d)"
        by auto
      have "i = 0" using i(3) g by (cases i) auto
      then have "match_here (c # cs) = Some ds" using i by (simp add: match_here_iff)
      then show "re_search (c # cs) = Some ds" by simp
    qed
  qed
qed

lemma re_search_None_iff:
  "re_search line = None \<longleftrightarrow> (\<forall>i ds. \<not> (digit_run ds \<and> occurrence line i ds))"
proof
  assume n: "re_search line = None"
  show "\<forall>i ds. \<not> (digit_run ds \<and> occurrence line i ds)"
  proof (rule ccontr)
    assume "\<not> (\<forall>i ds. \<not> (digit_run ds \<and> occurrence line i ds))"
    then have "\<exists>i. \<exists>ds. digit_run ds \<and> occurrence line i ds" by auto
    then obtain i where i: "\<exists>ds. digit_run ds \<and> occurrence line i ds"
      and least: "\<forall>j<i. \<not> (\<exists>ds. digit_run ds \<and> occurrence line j ds)"
      using exists_least_iff [of "\<lambda>i. \<exists>ds. digit_run ds \<and> occurrence line i ds"] by auto
    from i obtain ds where "digit_run ds" "occurrence line i ds" by auto
    with least have "re_search line = Some ds"
      unfolding re_search_Some_iff by (intro exI [of _ i]) auto
    with n show False by simp
  qed
next
  assume "\<forall>i ds. \<not> (digit_run ds \<and> occurrence line i ds)"
  then have "re_search line \<noteq> Some ds" for ds
    unfolding re_search_Some_iff by blast
  then show "re_search line = None"
    by (cases "re_search line") auto
qed


lemmas pattern_eval = str_of_def match_here_def greedy_digits_def isdecimal_def
  decimal_blocks_def backtrack.simps digit_run_def occurrence_def ascii_digit_def

lemma occurrence_digits:
  assumes "occurrence line i ds"
  shows "ds = take (length ds) (drop (i + 3) line)" and "i < length line"
proof -
  from assms obtain post where p: "drop i line = str_of ''/m/'' @ ds @ str_of ''/'' @ post"
    by (auto simp: occurrence_iff)
  then have "drop 3 (drop i line) = ds @ str_of ''/'' @ post"
    by (simp add: str_of_def)
  then have "drop (i + 3) line = ds @ str_of ''/'' @ post"
    by (simp add: add.commute)
  then show "ds = take (length ds) (drop (i + 3) line)" by simp
  from p have "drop i line \<noteq> []" by (simp add: str_of_def)
  then show "i < length line" by simp
qed

lemma contains_ascii_form_iff:
  "contains_ascii_form line \<longleftrightarrow> (\<exists>i ds. ascii_run ds \<and> occurrence line i ds)"
proof
  assume "contains_ascii_form line"
  then show "\<exists>i ds. ascii_run ds \<and> occurrence line i ds"
    by (auto simp: contains_ascii_form_def list_ex_iff)
next
  assume "\<exists>i ds. ascii_run ds \<and> occurrence line i ds"
  then obtain i ds where h: "ascii_run ds" "occurrence line i ds" by auto
  let ?n = "length ds"
  have ds: "take ?n (drop (i + 3) line) = ds" and i: "i < length line"
    using occurrence_digits [OF h(2)] by simp_all
  have n: "?n \<in> set [6..<13]"
    using h(1) unfolding ascii_run_def set_upt atLeastLessThan_iff by arith
  show "contains_ascii_form line"
    unfolding contains_ascii_form_def list_ex_iff
    using h ds i n by (intro bexI [of _ i] bexI [of _ ?n]) simp_all
qed

section \<open>Claims about the extractor\<close>

text \<open>
  C2, as it holds. The extractor returns a digit run exactly when the line has an
  occurrence of \<^verbatim>\<open>/m/\<close>, 6 to 12 decimal digits and \<^verbatim>\<open>/\<close>, and then it is the run of
  the leftmost occurrence: one identifier for a line, whatever follows. It returns the
  absence value \<open>None\<close>, not an error, exactly when the line has no occurrence. The
  digits are those \<^verbatim>\<open>\d\<close> matches in a \<^verbatim>\<open>str\<close> pattern, every Unicode decimal digit, the
  ASCII digits among them.
\<close>

theorem extractor_leftmost_match:
  "(re_search line = Some ds \<longleftrightarrow>
      (\<exists>i. digit_run ds \<and> occurrence line i ds
           \<and> (\<forall>j<i. \<forall>d. \<not> (digit_run d \<and> occurrence line j d))))
   \<and> (re_search line = None \<longleftrightarrow> (\<forall>i d. \<not> (digit_run d \<and> occurrence line i d)))"
  using re_search_Some_iff [of line ds] re_search_None_iff [of line] by blast

text \<open>
  The theorem at the line \<^verbatim>\<open>no/m/123456/end/m/7654321/\<close>: the occurrence at index 2 is the
  leftmost of two (no occurrence starts at index 0 or 1), and its run is what the
  extractor returns.
\<close>

theorem extractor_leftmost_match_witness:
  "digit_run (str_of ''123456'')
   \<and> occurrence (str_of ''no/m/123456/end/m/7654321/'') 2 (str_of ''123456'')
   \<and> re_search (str_of ''no/m/123456/end/m/7654321/'') = Some (str_of ''123456'')"
proof -
  let ?L = "str_of ''no/m/123456/end/m/7654321/''"
  have a: "digit_run (str_of ''123456'')" by (simp add: pattern_eval)
  have b: "occurrence ?L 2 (str_of ''123456'')" by (simp add: pattern_eval)
  have c: "\<forall>j<2. \<forall>d. \<not> (digit_run d \<and> occurrence ?L j d)"
  proof (intro allI impI)
    fix j :: nat and d assume "j < 2"
    then have "j = 0 \<or> j = 1" by auto
    then have "take 3 (drop j ?L) \<noteq> str_of ''/m/''"
      by (auto simp: str_of_def)
    moreover have "take 3 (drop j ?L) = str_of ''/m/''" if "occurrence ?L j d"
    proof -
      from that obtain post where "drop j ?L = str_of ''/m/'' @ d @ str_of ''/'' @ post"
        by (auto simp: occurrence_iff)
      then show ?thesis by (simp add: str_of_def)
    qed
    ultimately show "\<not> (digit_run d \<and> occurrence ?L j d)" by blast
  qed
  from a b c have "re_search ?L = Some (str_of ''123456'')"
    using extractor_leftmost_match [of ?L "str_of ''123456''"] by blast
  with a b show ?thesis by blast
qed

text \<open>
  C2 as the specification words it, with ASCII digits, fails. The 16 bytes of
  \<^verbatim>\<open>/m/\<close>, the Arabic-Indic digits one to six in UTF-8 and \<^verbatim>\<open>/\<close> decode to a line that
  holds no run of ASCII digits in that form, and the extractor returns an identifier for
  it.
\<close>

theorem extractor_ascii_counterexample:
  "utf8_decode Ignore
     [0x2F, 0x6D, 0x2F, 0xD9, 0xA1, 0xD9, 0xA2, 0xD9, 0xA3, 0xD9, 0xA4, 0xD9, 0xA5, 0xD9, 0xA6, 0x2F]
     = Inr [0x2F, 0x6D, 0x2F, 0x661, 0x662, 0x663, 0x664, 0x665, 0x666, 0x2F]
   \<and> \<not> contains_ascii_form [0x2F, 0x6D, 0x2F, 0x661, 0x662, 0x663, 0x664, 0x665, 0x666, 0x2F]
   \<and> re_search [0x2F, 0x6D, 0x2F, 0x661, 0x662, 0x663, 0x664, 0x665, 0x666, 0x2F]
       = Some [0x661, 0x662, 0x663, 0x664, 0x665, 0x666]"
proof (intro conjI)
  show "utf8_decode Ignore
     [0x2F, 0x6D, 0x2F, 0xD9, 0xA1, 0xD9, 0xA2, 0xD9, 0xA3, 0xD9, 0xA4, 0xD9, 0xA5, 0xD9, 0xA6, 0x2F]
     = Inr [0x2F, 0x6D, 0x2F, 0x661, 0x662, 0x663, 0x664, 0x665, 0x666, 0x2F]"
    by (simp add: utf8_first_def is_cont_def)
  show "\<not> contains_ascii_form [0x2F, 0x6D, 0x2F, 0x661, 0x662, 0x663, 0x664, 0x665, 0x666, 0x2F]"
    by (simp add: contains_ascii_form_def ascii_run_def pattern_eval upt_rec)
  show "re_search [0x2F, 0x6D, 0x2F, 0x661, 0x662, 0x663, 0x664, 0x665, 0x666, 0x2F]
       = Some [0x661, 0x662, 0x663, 0x664, 0x665, 0x666]"
    by (simp add: pattern_eval)
qed




section \<open>Claims about the label\<close>

lemma paste_size [simp]:
  "width (paste dst src pos m) = width dst" "height (paste dst src pos m) = height dst"
  by (simp_all add: paste_def)

lemma draw_text_size [simp]:
  "width (draw_text dst pos t f) = width dst" "height (draw_text dst pos t f) = height dst"
  by (simp_all add: draw_text_def)

lemma image_new_size:
  "image_new m (w, h) c = Inr im \<Longrightarrow> width im = w \<and> height im = h"
  by (auto simp: image_new_def split: if_splits)

lemma compose_label_Inr:
  assumes "compose_label e uid = Inr im"
  shows "width im = 543 \<and> height im = 248"
  using assms
  by (auto simp: compose_label_def Let_def LABEL_W_def LABEL_H_def
      dest!: image_new_size split: sum.splits)

lemma compose_label_returns:
  assumes "load_logo e (str_of ''img/taqt.png'') 190 = Inr taqt"
    and "load_logo e (str_of ''img/WEEE.png'') 70 = Inr weee"
    and "load_logo e (str_of ''img/CE.png'') 80 = Inr ce"
    and "make_barcode e (PREFIX @ uid) = Inr barcode"
  shows "\<exists>im. compose_label e uid = Inr im"
  using assms by (simp add: compose_label_def Let_def image_new_def LABEL_W_def LABEL_H_def)

lemmas env_eval = example_env_def missing_logo_env_def load_logo_def make_barcode_def
  convert_def resize_def image_new_def paste_def draw_text_def Let_def
  PREFIX_def LABEL_W_def LABEL_H_def MARGIN_def TEXT1_def TEXT2_def str_of_def

lemma example_logos:
  "load_logo example_env (str_of ''img/taqt.png'') 190
     = Inr (Image RGBA 190 60 [Resampled (Image RGBA 380 120 [Pixels (str_of ''img/taqt.png'')])])"
  "load_logo example_env (str_of ''img/WEEE.png'') 70
     = Inr (Image RGBA 70 22 [Resampled (Image RGBA 380 120 [Pixels (str_of ''img/WEEE.png'')])])"
  "load_logo example_env (str_of ''img/CE.png'') 80
     = Inr (Image RGBA 80 25 [Resampled (Image RGBA 380 120 [Pixels (str_of ''img/CE.png'')])])"
  by (simp_all add: env_eval)


lemma example_barcode_long:
  "\<exists>b. make_barcode example_env (PREFIX @ str_of ''123456789012'') = Inr b \<and> width b = 567"
  by (simp add: env_eval)

lemma missing_logo_fails:
  assumes "\<exists>p\<in>set logo_paths. \<exists>x. open_image e p = Inl x"
  shows "\<exists>err. compose_label e uid = Inl err"
proof -
  have "load_logo e p w = Inl x" if "open_image e p = Inl x" for p w x
    using that by (simp add: load_logo_def)
  then have "\<exists>x. load_logo e (str_of ''img/taqt.png'') 190 = Inl x
      \<or> load_logo e (str_of ''img/WEEE.png'') 70 = Inl x
      \<or> load_logo e (str_of ''img/CE.png'') 80 = Inl x"
    using assms by (auto simp: logo_paths_def)
  then show ?thesis
    by (auto simp: compose_label_def Let_def split: sum.splits)
qed

lemmas frame_eval = frame_def endswith_def END_BYTES_def bytes_of_def utf8_first_def
  is_cont_def strip_def isspace_def str_of_def

lemma scenario_frame:
  "frame [] (bytes_of ''noise/m/123456/end'' @ END_BYTES)
     = Inr ([], Some (str_of ''noise/m/123456/end''))"
  by (simp add: frame_eval)

lemma scenario_search:
  "re_search (str_of ''noise/m/123456/end'') = Some (str_of ''123456'')"
  by (simp add: pattern_eval)

lemma missing_logo_compose:
  "compose_label missing_logo_env uid = Inl (FileNotFoundError (str_of ''img/taqt.png''))"
  by (simp add: compose_label_def env_eval)


text \<open>
  C5. Whatever the identifier, an image that \<open>compose_label\<close> returns is 543 pixels wide
  and 248 high: the canvas is created with that size and pasting never changes it, however
  wide the barcode is. And it does return one when the three logos load and the barcode is
  rendered.
\<close>

theorem compose_label_fixed_canvas:
  "(compose_label e uid = Inr im \<longrightarrow> width im = 543 \<and> height im = 248)
   \<and> (load_logo e (str_of ''img/taqt.png'') 190 = Inr taqt
      \<and> load_logo e (str_of ''img/WEEE.png'') 70 = Inr weee
      \<and> load_logo e (str_of ''img/CE.png'') 80 = Inr ce
      \<and> make_barcode e (PREFIX @ uid) = Inr barcode
      \<longrightarrow> (\<exists>label. compose_label e uid = Inr label \<and> width label = 543 \<and> height label = 248))"
  using compose_label_Inr [of e uid] compose_label_returns [of e taqt weee ce uid barcode]
  by blast

text \<open>
  The theorem in the example surroundings with a 12-digit identifier, whose barcode, 567
  pixels wide, is wider than the canvas.
\<close>

theorem compose_label_fixed_canvas_witness:
  "\<exists>label. compose_label example_env (str_of ''123456789012'') = Inr label
      \<and> width label = 543 \<and> height label = 248"
proof -
  obtain b where b: "make_barcode example_env (PREFIX @ str_of ''123456789012'') = Inr b"
    using example_barcode_long by blast
  show ?thesis
    using compose_label_fixed_canvas [of example_env "str_of ''123456789012''" undefined,
        THEN conjunct2, rule_format, OF conjI [OF example_logos(1) conjI [OF example_logos(2)
          conjI [OF example_logos(3) b]]]]
    by blast
qed

section \<open>Claims about port selection\<close>

text \<open>
  C10. When \<^verbatim>\<open>PORT\<close> is set to a string that is not empty, \<open>autodetect_port\<close> returns it
  unchanged whatever the enumeration gives: no device, several devices, or devices among
  which it is not.
\<close>

theorem override_returned_unchecked:
  "p \<noteq> [] \<Longrightarrow> autodetect_port (Some p) ports = Inr p"
  by (simp add: autodetect_port_def truthy_def)

text \<open>The theorem with no device enumerated, and with two devices that are not the override.\<close>

theorem override_returned_unchecked_witness:
  "autodetect_port (Some (str_of ''COM4'')) [] = Inr (str_of ''COM4'')
   \<and> autodetect_port (Some (str_of ''COM4''))
        [\<lparr>device = str_of ''COM1''\<rparr>, \<lparr>device = str_of ''COM7''\<rparr>] = Inr (str_of ''COM4'')"
proof -
  have "str_of ''COM4'' \<noteq> []" by (simp add: str_of_def)
  then show ?thesis
    using override_returned_unchecked [of "str_of ''COM4''" "[]"]
      override_returned_unchecked [of "str_of ''COM4''"
        "[\<lparr>device = str_of ''COM1''\<rparr>, \<lparr>device = str_of ''COM7''\<rparr>]"]
    by simp
qed

text \<open>
  C8. With no override, a port is selected exactly when one device is enumerated, and it
  is that device. With any other number of devices, several among them, \<^verbatim>\<open>RuntimeError\<close>
  is raised and the process ends with status 1 before the loop starts: nothing is read,
  saved or logged, whatever the serial port would deliver.
\<close>

theorem port_selection:
  assumes "\<not> truthy port"
  shows "((\<exists>p. autodetect_port port ports = Inr p) \<longleftrightarrow> length ports = 1)
     \<and> (length ports = 1 \<longrightarrow> autodetect_port port ports = Inr (device (hd ports)))
     \<and> (length ports \<noteq> 1 \<longrightarrow>
          autodetect_port port ports = Inl RuntimeError \<and> main port e ports evs = Exited 1 init)"
proof -
  have "ports ! 0 = hd ports" if "length ports = 1"
    using that by (cases ports) auto
  then show ?thesis
    using assms by (auto simp: autodetect_port_def main_def)
qed

text \<open>The theorem at the configured \<^verbatim>\<open>PORT = None\<close>, with one device and with two.\<close>

theorem port_selection_witness:
  "\<not> truthy PORT
   \<and> autodetect_port PORT [\<lparr>device = str_of ''COM3''\<rparr>] = Inr (str_of ''COM3'')
   \<and> autodetect_port PORT [\<lparr>device = str_of ''COM3''\<rparr>, \<lparr>device = str_of ''COM5''\<rparr>]
       = Inl RuntimeError
   \<and> main PORT example_env [\<lparr>device = str_of ''COM3''\<rparr>, \<lparr>device = str_of ''COM5''\<rparr>]
        [Read (bytes_of ''noise/m/123456/end'' @ END_BYTES) example_time] = Exited 1 init"
proof -
  have n: "\<not> truthy PORT" by (simp add: PORT_def truthy_def)
  show ?thesis
    using n port_selection [OF n, of "[\<lparr>device = str_of ''COM3''\<rparr>]"]
      port_selection [OF n, of "[\<lparr>device = str_of ''COM3''\<rparr>, \<lparr>device = str_of ''COM5''\<rparr>]"
        example_env "[Read (bytes_of ''noise/m/123456/end'' @ END_BYTES) example_time]"]
    by simp
qed

section \<open>Claims about the loop\<close>

text \<open>
  C7. When label composition raises an error for the identifier of a completed line, the
  loop stops there: the error is logged at error severity, the process ends with status 1,
  the files saved are those saved before, and the events that follow are not looked at. A
  logo that cannot be opened is such a failure (lemma \<open>missing_logo_fails\<close>).
\<close>

theorem compose_failure_exits:
  assumes "frame (buf st) chunk = Inr (b, Some line)"
    and "re_search line = Some uid"
    and "compose_label e uid = Inl err"
  shows "loop e st (Read chunk now # evs)
           = Exited 1 (st\<lparr>buf := b, logged := logged st @ [(ERROR, Failed err)]\<rparr>)
     \<and> files (st\<lparr>buf := b, logged := logged st @ [(ERROR, Failed err)]\<rparr>) = files st"
  using assms by (simp add: iteration_def handle_line_def)

text \<open>
  The theorem where no image file can be opened: the first scan ends the process, nothing
  is saved, and the second scan is never read.
\<close>

theorem compose_failure_exits_witness:
  "loop missing_logo_env init
     [Read (bytes_of ''noise/m/123456/end'' @ END_BYTES) example_time,
      Read (bytes_of ''x/m/7654321/'' @ END_BYTES) example_time]
   = Exited 1 \<lparr>buf = [], files = [],
       logged = [(ERROR, Failed (FileNotFoundError (str_of ''img/taqt.png'')))]\<rparr>"
proof -
  have f: "frame (buf init) (bytes_of ''noise/m/123456/end'' @ END_BYTES)
     = Inr ([], Some (str_of ''noise/m/123456/end''))"
    using scenario_frame by (simp add: init_def)
  show ?thesis
    using compose_failure_exits [OF f scenario_search missing_logo_compose,
        of example_time "[Read (bytes_of ''x/m/7654321/'' @ END_BYTES) example_time]"]
    by (simp add: init_def)
qed



section \<open>Claims about framing and decoding\<close>

lemma utf8_first_consumes:
  "utf8_first ch r = Char c n \<Longrightarrow> 1 \<le> n \<and> n - 1 \<le> length r"
  "utf8_first ch r = Invalid n \<Longrightarrow> 1 \<le> n \<and> n - 1 \<le> length r"
  by (auto simp: utf8_first_def split: if_splits list.splits)

lemma decode_ignore_total: "\<exists>s. utf8_decode Ignore bs = Inr s"
proof (induction bs rule: length_induct)
  case (1 bs)
  show ?case
  proof (cases bs)
    case Nil
    then show ?thesis by simp
  next
    case (Cons b r)
    have ih: "\<exists>s. utf8_decode Ignore (drop k r) = Inr s" for k
      using 1 Cons by simp
    show ?thesis
    proof (cases "utf8_first (unat b) (map unat r)")
      case (Char c n)
      with ih [of "n - 1"] Cons show ?thesis by auto
    next
      case (Invalid n)
      with ih [of "n - 1"] Cons show ?thesis by auto
    qed
  qed
qed

lemma decode_text_eq: "utf8_decode Ignore bs = Inr (decode_text bs)"
  using decode_ignore_total [of bs] by (auto simp: decode_text_def)

lemma decode_strict_ignore:
  "utf8_decode Strict bs = Inr t \<Longrightarrow> utf8_decode Ignore bs = Inr t"
proof (induction bs arbitrary: t rule: length_induct)
  case (1 bs)
  show ?case
  proof (cases bs)
    case Nil
    with 1 show ?thesis by simp
  next
    case (Cons b r)
    show ?thesis
    proof (cases "utf8_first (unat b) (map unat r)")
      case (Char c n)
      with 1(2) Cons obtain u where u: "utf8_decode Strict (drop (n - 1) r) = Inr u" "t = c # u"
        by (auto split: sum.splits)
      have "utf8_decode Ignore (drop (n - 1) r) = Inr u"
        using 1(1) Cons u(1) by simp
      with Char Cons u(2) show ?thesis by simp
    next
      case (Invalid n)
      with 1(2) Cons show ?thesis by simp
    qed
  qed
qed

lemma decode_replace_subseq:
  "\<exists>r. utf8_decode Replace bs = Inr r \<and> subseq (decode_text bs) r"
proof (induction bs rule: length_induct)
  case (1 bs)
  show ?case
  proof (cases bs)
    case Nil
    then show ?thesis by (simp add: decode_text_def)
  next
    case (Cons b r)
    have ih: "\<exists>x. utf8_decode Replace (drop k r) = Inr x \<and> subseq (decode_text (drop k r)) x" for k
      using 1 Cons by simp
    have ig: "utf8_decode Ignore (drop k r) = Inr (decode_text (drop k r))" for k
      by (rule decode_text_eq)
    show ?thesis
    proof (cases "utf8_first (unat b) (map unat r)")
      case (Char c n)
      from ih [of "n - 1"] obtain x where x: "utf8_decode Replace (drop (n - 1) r) = Inr x"
        "subseq (decode_text (drop (n - 1) r)) x" by blast
      have "decode_text bs = c # decode_text (drop (n - 1) r)"
        using Char Cons ig [of "n - 1"] unfolding decode_text_def [of bs] by simp
      with x Char Cons show ?thesis by simp
    next
      case (Invalid n)
      from ih [of "n - 1"] obtain x where x: "utf8_decode Replace (drop (n - 1) r) = Inr x"
        "subseq (decode_text (drop (n - 1) r)) x" by blast
      have "decode_text bs = decode_text (drop (n - 1) r)"
        using Invalid Cons ig [of "n - 1"] unfolding decode_text_def [of bs] by simp
      moreover have "subseq (decode_text (drop (n - 1) r)) (0xFFFD # x)"
        using x(2) by (rule list_emb_Cons)
      ultimately show ?thesis using x(1) Invalid Cons by simp
    qed
  qed
qed

lemma strip_parts:
  "\<exists>l r. s = l @ strip s @ r \<and> list_all isspace l \<and> list_all isspace r"
proof -
  let ?m = "dropWhile isspace s"
  have "s = takeWhile isspace s @ ?m" by simp
  moreover have "rev ?m = takeWhile isspace (rev ?m) @ dropWhile isspace (rev ?m)" by simp
  then have "?m = strip s @ rev (takeWhile isspace (rev ?m))"
    unfolding strip_def by (metis rev_append rev_rev_ident)
  moreover have "list_all isspace (takeWhile isspace s)"
    by (auto simp: list_all_iff dest: set_takeWhileD)
  moreover have "list_all isspace (rev (takeWhile isspace (rev ?m)))"
    by (auto simp: list_all_iff dest: set_takeWhileD)
  ultimately show ?thesis by metis
qed

lemma strip_ends:
  assumes "strip s \<noteq> []"
  shows "\<not> isspace (hd (strip s))" and "\<not> isspace (last (strip s))"
proof -
  let ?m = "dropWhile isspace s"
  let ?d = "dropWhile isspace (rev ?m)"
  have d: "?d \<noteq> []" using assms by (simp add: strip_def)
  then have "\<not> isspace (hd ?d)" by (rule hd_dropWhile)
  moreover have "last (strip s) = hd ?d"
    using d by (simp add: strip_def last_rev)
  ultimately show "\<not> isspace (last (strip s))" by simp
  have "rev ?m = takeWhile isspace (rev ?m) @ ?d" by simp
  then have m: "?m = strip s @ rev (takeWhile isspace (rev ?m))"
    unfolding strip_def by (metis rev_append rev_rev_ident)
  then have "?m \<noteq> []" using assms by (metis Nil_is_append_conv)
  then have "\<not> isspace (hd ?m)" by (rule hd_dropWhile)
  moreover have "hd ?m = hd (strip s)" using m assms by (metis hd_append2)
  ultimately show "\<not> isspace (hd (strip s))" by simp
qed

lemma utf8_first_take:
  "utf8_first ch r = Char c n \<Longrightarrow> utf8_first ch (take (n - 1) r) = Char c n"
  "utf8_first ch r = Invalid n \<Longrightarrow> \<exists>m. utf8_first ch (take (n - 1) r) = Invalid m"
  by (auto simp: utf8_first_def split: if_splits list.splits)

lemma utf8_parts_concat: "concat (map fst (utf8_parts bs)) = bs"
proof (induction bs rule: length_induct)
  case (1 bs)
  show ?case
  proof (cases bs)
    case Nil
    then show ?thesis by simp
  next
    case (Cons b r)
    have ih: "concat (map fst (utf8_parts (drop k r))) = drop k r" for k
      using 1 Cons by simp
    show ?thesis
      using Cons ih by (cases "utf8_first (unat b) (map unat r)") simp_all
  qed
qed

lemma utf8_parts_ignore: "utf8_decode Ignore bs = Inr (List.map_filter snd (utf8_parts bs))"
proof (induction bs rule: length_induct)
  case (1 bs)
  show ?case
  proof (cases bs)
    case Nil
    then show ?thesis by (simp add: List.map_filter_simps)
  next
    case (Cons b r)
    have ih: "utf8_decode Ignore (drop k r) = Inr (List.map_filter snd (utf8_parts (drop k r)))" for k
      using 1 Cons by simp
    show ?thesis
      using Cons ih
      by (cases "utf8_first (unat b) (map unat r)") (simp_all add: List.map_filter_simps)
  qed
qed

lemma utf8_parts_replace: "utf8_decode Replace bs = Inr (map replaced (utf8_parts bs))"
proof (induction bs rule: length_induct)
  case (1 bs)
  show ?case
  proof (cases bs)
    case Nil
    then show ?thesis by simp
  next
    case (Cons b r)
    have ih: "utf8_decode Replace (drop k r) = Inr (map replaced (utf8_parts (drop k r)))" for k
      using 1 Cons by simp
    show ?thesis
      using Cons ih
      by (cases "utf8_first (unat b) (map unat r)") (simp_all add: replaced_def)
  qed
qed

lemma utf8_parts_strict:
  "utf8_decode Strict bs =
     (if list_all (\<lambda>part. snd part \<noteq> None) (utf8_parts bs)
      then Inr (List.map_filter snd (utf8_parts bs)) else Inl UnicodeDecodeError)"
proof (induction bs rule: length_induct)
  case (1 bs)
  show ?case
  proof (cases bs)
    case Nil
    then show ?thesis by (simp add: List.map_filter_simps)
  next
    case (Cons b r)
    have ih: "utf8_decode Strict (drop k r) =
     (if list_all (\<lambda>part. snd part \<noteq> None) (utf8_parts (drop k r))
      then Inr (List.map_filter snd (utf8_parts (drop k r))) else Inl UnicodeDecodeError)" for k
      using 1 Cons by simp
    show ?thesis
      using Cons ih
      by (cases "utf8_first (unat b) (map unat r)") (simp_all add: List.map_filter_simps)
  qed
qed

lemma utf8_parts_wellformed:
  "(p, q) \<in> set (utf8_parts bs) \<Longrightarrow>
     p \<noteq> [] \<and> utf8_decode Strict p
       = (case q of Some c \<Rightarrow> Inr [c] | None \<Rightarrow> Inl UnicodeDecodeError)"
proof (induction bs rule: length_induct)
  case (1 bs)
  show ?case
  proof (cases bs)
    case Nil
    with 1(2) show ?thesis by simp
  next
    case (Cons b r)
    have ih: "p \<noteq> [] \<and> utf8_decode Strict p
         = (case q of Some c \<Rightarrow> Inr [c] | None \<Rightarrow> Inl UnicodeDecodeError)"
      if "(p, q) \<in> set (utf8_parts (drop k r))" for k
    proof -
      have "length (drop k r) < length bs" using Cons by simp
      with 1(1) that show ?thesis by blast
    qed
    show ?thesis
    proof (cases "utf8_first (unat b) (map unat r)")
      case (Char c n)
      have hd: "utf8_decode Strict (b # take (n - 1) r) = Inr [c]"
      proof -
        have "utf8_first (unat b) (map unat (take (n - 1) r)) = Char c n"
          using utf8_first_take(1) [OF Char] by (simp add: take_map)
        moreover have "drop (n - 1) (take (n - 1) r) = []" by simp
        ultimately show ?thesis by simp
      qed
      from 1(2) Cons Char
      have "(p, q) = (b # take (n - 1) r, Some c) \<or> (p, q) \<in> set (utf8_parts (drop (n - 1) r))"
        by simp
      then show ?thesis using hd ih [of "n - 1"] by auto
    next
      case (Invalid n)
      have hd: "utf8_decode Strict (b # take (n - 1) r) = Inl UnicodeDecodeError"
      proof -
        obtain m where "utf8_first (unat b) (map unat (take (n - 1) r)) = Invalid m"
          using utf8_first_take(2) [OF Invalid] by (auto simp: take_map)
        then show ?thesis by simp
      qed
      from 1(2) Cons Invalid
      have "(p, q) = (b # take (n - 1) r, None) \<or> (p, q) \<in> set (utf8_parts (drop (n - 1) r))"
        by simp
      then show ?thesis using hd ih [of "n - 1"] by auto
    qed
  qed
qed

lemma parts_eval:
  "utf8_parts [0x61, 0xE2, 0x82, 0xFF, 0x20, 0x62, 0x20, 0x0D]
     = [([0x61], Some 0x61), ([0xE2, 0x82], None), ([0xFF], None), ([0x20], Some 0x20),
        ([0x62], Some 0x62), ([0x20], Some 0x20), ([0x0D], Some 0x0D)]"
  by (simp add: utf8_first_def is_cont_def)

text \<open>
  C6, as it holds. Decoding the buffer never raises: every byte sequence decodes to a
  text. When the buffer ends with the terminator, the line is that text stripped. The
  buffer divides, in order, into parts that are not empty: well-formed sequences, each of
  which strict decoding turns into one character, and error ranges, on which strict
  decoding fails. The text is the characters of the well-formed sequences, in order, and
  nothing else: an error range is skipped and nothing stands in its place, where the
  \<^verbatim>\<open>replace\<close> handler would put U+FFFD. So the text is what strict decoding gives when
  the bytes are well formed, and otherwise the text \<^verbatim>\<open>replace\<close> would give with
  characters left out. The stripped line is the text without a prefix and a suffix of
  whitespace, and neither begins nor ends with whitespace.
\<close>

theorem permissive_decoding:
  "\<exists>s. utf8_decode Ignore (b0 @ chunk) = Inr s
     \<and> (endswith (b0 @ chunk) END_BYTES \<longrightarrow> frame b0 chunk = Inr ([], Some (strip s)))
     \<and> concat (map fst (utf8_parts (b0 @ chunk))) = b0 @ chunk
     \<and> (\<forall>part\<in>set (utf8_parts (b0 @ chunk)).
          fst part \<noteq> []
          \<and> utf8_decode Strict (fst part)
              = (case snd part of Some c \<Rightarrow> Inr [c] | None \<Rightarrow> Inl UnicodeDecodeError))
     \<and> s = List.map_filter snd (utf8_parts (b0 @ chunk))
     \<and> utf8_decode Replace (b0 @ chunk) = Inr (map replaced (utf8_parts (b0 @ chunk)))
     \<and> (\<forall>t. utf8_decode Strict (b0 @ chunk) = Inr t \<longrightarrow> s = t)
     \<and> (\<exists>r. utf8_decode Replace (b0 @ chunk) = Inr r \<and> subseq s r)
     \<and> (\<exists>l r. s = l @ strip s @ r \<and> list_all isspace l \<and> list_all isspace r)
     \<and> (strip s \<noteq> [] \<longrightarrow> \<not> isspace (hd (strip s)) \<and> \<not> isspace (last (strip s)))"
proof (rule exI [of _ "decode_text (b0 @ chunk)"], intro conjI)
  let ?s = "decode_text (b0 @ chunk)"
  show d: "utf8_decode Ignore (b0 @ chunk) = Inr ?s" by (rule decode_text_eq)
  show "endswith (b0 @ chunk) END_BYTES \<longrightarrow> frame b0 chunk = Inr ([], Some (strip ?s))"
    using d by (simp add: frame_def)
  show "concat (map fst (utf8_parts (b0 @ chunk))) = b0 @ chunk"
    by (rule utf8_parts_concat)
  show "\<forall>part\<in>set (utf8_parts (b0 @ chunk)).
          fst part \<noteq> []
          \<and> utf8_decode Strict (fst part)
              = (case snd part of Some c \<Rightarrow> Inr [c] | None \<Rightarrow> Inl UnicodeDecodeError)"
  proof
    fix part assume "part \<in> set (utf8_parts (b0 @ chunk))"
    then have "(fst part, snd part) \<in> set (utf8_parts (b0 @ chunk))" by simp
    then show "fst part \<noteq> []
          \<and> utf8_decode Strict (fst part)
              = (case snd part of Some c \<Rightarrow> Inr [c] | None \<Rightarrow> Inl UnicodeDecodeError)"
      by (rule utf8_parts_wellformed)
  qed
  show "?s = List.map_filter snd (utf8_parts (b0 @ chunk))"
    using d utf8_parts_ignore [of "b0 @ chunk"] by simp
  show "utf8_decode Replace (b0 @ chunk) = Inr (map replaced (utf8_parts (b0 @ chunk)))"
    by (rule utf8_parts_replace)
  show "\<forall>t. utf8_decode Strict (b0 @ chunk) = Inr t \<longrightarrow> ?s = t"
    using d decode_strict_ignore by fastforce
  show "\<exists>r. utf8_decode Replace (b0 @ chunk) = Inr r \<and> subseq ?s r"
    by (rule decode_replace_subseq)
  show "\<exists>l r. ?s = l @ strip ?s @ r \<and> list_all isspace l \<and> list_all isspace r"
    by (rule strip_parts)
  show "strip ?s \<noteq> [] \<longrightarrow> \<not> isspace (hd (strip ?s)) \<and> \<not> isspace (last (strip ?s))"
    using strip_ends [of ?s] by blast
qed

text \<open>
  The theorem at a buffer that holds \<^verbatim>\<open>a\<close> and a sequence cut short, completed by a read
  with an invalid byte, \<^verbatim>\<open> b \<close> and the terminator: two error ranges, both skipped.
\<close>

theorem permissive_decoding_witness:
  "endswith ([0x61, 0xE2, 0x82] @ [0xFF, 0x20, 0x62, 0x20, 0x0D]) END_BYTES
   \<and> utf8_parts ([0x61, 0xE2, 0x82] @ [0xFF, 0x20, 0x62, 0x20, 0x0D])
       = [([0x61], Some 0x61), ([0xE2, 0x82], None), ([0xFF], None), ([0x20], Some 0x20),
          ([0x62], Some 0x62), ([0x20], Some 0x20), ([0x0D], Some 0x0D)]
   \<and> utf8_decode Ignore ([0x61, 0xE2, 0x82] @ [0xFF, 0x20, 0x62, 0x20, 0x0D])
       = Inr [0x61, 0x20, 0x62, 0x20, 0x0D]
   \<and> utf8_decode Replace ([0x61, 0xE2, 0x82] @ [0xFF, 0x20, 0x62, 0x20, 0x0D])
       = Inr [0x61, 0xFFFD, 0xFFFD, 0x20, 0x62, 0x20, 0x0D]
   \<and> frame [0x61, 0xE2, 0x82] [0xFF, 0x20, 0x62, 0x20, 0x0D] = Inr ([], Some [0x61, 0x20, 0x62])"
proof -
  let ?b0 = "[0x61, 0xE2, 0x82] :: byte list"
  let ?c = "[0xFF, 0x20, 0x62, 0x20, 0x0D] :: byte list"
  have e: "endswith (?b0 @ ?c) END_BYTES"
    by (simp add: endswith_def END_BYTES_def)
  have p: "utf8_parts (?b0 @ ?c)
       = [([0x61], Some 0x61), ([0xE2, 0x82], None), ([0xFF], None), ([0x20], Some 0x20),
          ([0x62], Some 0x62), ([0x20], Some 0x20), ([0x0D], Some 0x0D)]"
    using parts_eval by simp
  have s: "strip [0x61, 0x20, 0x62, 0x20, 0x0D] = [0x61, 0x20, 0x62]"
    by (simp add: strip_def isspace_def)
  from permissive_decoding [of ?b0 ?c] obtain t where
    t: "utf8_decode Ignore (?b0 @ ?c) = Inr t"
      "endswith (?b0 @ ?c) END_BYTES \<longrightarrow> frame ?b0 ?c = Inr ([], Some (strip t))"
      "t = List.map_filter snd (utf8_parts (?b0 @ ?c))"
      "utf8_decode Replace (?b0 @ ?c) = Inr (map replaced (utf8_parts (?b0 @ ?c)))"
    by blast
  have tv: "t = [0x61, 0x20, 0x62, 0x20, 0x0D]"
    unfolding t(3) p by (simp add: List.map_filter_simps)
  have r: "utf8_decode Replace (?b0 @ ?c) = Inr [0x61, 0xFFFD, 0xFFFD, 0x20, 0x62, 0x20, 0x0D]"
    unfolding t(4) p by (simp add: replaced_def)
  from t(2) e s tv have "frame ?b0 ?c = Inr ([], Some [0x61, 0x20, 0x62])" by simp
  with e p t(1) tv r show ?thesis by blast
qed

text \<open>
  C6 as the specification words it, undecodable bytes replaced, fails. A byte \<^verbatim>\<open>0xFF\<close>
  inside a digit run leaves no trace in the line, so the run is whole and an identifier is
  extracted; had the byte been replaced by U+FFFD, the line would hold no identifier.
\<close>

theorem replacement_counterexample:
  "frame [] (bytes_of ''/m/123'' @ [0xFF] @ bytes_of ''456/'' @ END_BYTES)
     = Inr ([], Some (str_of ''/m/123456/''))
   \<and> utf8_decode Replace (bytes_of ''/m/123'' @ [0xFF] @ bytes_of ''456/'' @ END_BYTES)
     = Inr (str_of ''/m/123'' @ [0xFFFD] @ str_of ''456/'' @ [0x0D])
   \<and> re_search (str_of ''/m/123456/'') = Some (str_of ''123456'')
   \<and> re_search (strip (str_of ''/m/123'' @ [0xFFFD] @ str_of ''456/'' @ [0x0D])) = None"
proof (intro conjI)
  show "frame [] (bytes_of ''/m/123'' @ [0xFF] @ bytes_of ''456/'' @ END_BYTES)
     = Inr ([], Some (str_of ''/m/123456/''))"
    by (simp add: frame_eval)
  show "utf8_decode Replace (bytes_of ''/m/123'' @ [0xFF] @ bytes_of ''456/'' @ END_BYTES)
     = Inr (str_of ''/m/123'' @ [0xFFFD] @ str_of ''456/'' @ [0x0D])"
    by (simp add: frame_eval)
  show "re_search (str_of ''/m/123456/'') = Some (str_of ''123456'')"
    by (simp add: pattern_eval)
  show "re_search (strip (str_of ''/m/123'' @ [0xFFFD] @ str_of ''456/'' @ [0x0D])) = None"
    by (simp add: pattern_eval strip_def isspace_def)
qed

text \<open>
  C1 at a read that returns two scans at once: the loop completes one line, with a
  terminator inside it, from which only the first identifier is extracted. The same bytes
  read in two pieces, and the stream split on the terminator, give two lines.
\<close>

theorem two_scans_in_one_read:
  "emitted [] [bytes_of ''/m/111111/'' @ END_BYTES @ bytes_of ''/m/222222/'' @ END_BYTES]
     = [str_of ''/m/111111/'' @ [0x0D] @ str_of ''/m/222222/'']
   \<and> emitted [] [bytes_of ''/m/111111/'' @ END_BYTES, bytes_of ''/m/222222/'' @ END_BYTES]
     = [str_of ''/m/111111/'', str_of ''/m/222222/'']
   \<and> split_lines (bytes_of ''/m/111111/'' @ END_BYTES @ bytes_of ''/m/222222/'' @ END_BYTES)
     = [str_of ''/m/111111/'', str_of ''/m/222222/'']
   \<and> re_search (str_of ''/m/111111/'' @ [0x0D] @ str_of ''/m/222222/'')
     = Some (str_of ''111111'')"
proof (intro conjI)
  show "emitted [] [bytes_of ''/m/111111/'' @ END_BYTES @ bytes_of ''/m/222222/'' @ END_BYTES]
     = [str_of ''/m/111111/'' @ [0x0D] @ str_of ''/m/222222/'']"
    by (simp add: frame_eval)
  show "emitted [] [bytes_of ''/m/111111/'' @ END_BYTES, bytes_of ''/m/222222/'' @ END_BYTES]
     = [str_of ''/m/111111/'', str_of ''/m/222222/'']"
    by (simp add: frame_eval)
  show "split_lines (bytes_of ''/m/111111/'' @ END_BYTES @ bytes_of ''/m/222222/'' @ END_BYTES)
     = [str_of ''/m/111111/'', str_of ''/m/222222/'']"
    by (simp add: split_lines_def decode_text_def frame_eval)
  show "re_search (str_of ''/m/111111/'' @ [0x0D] @ str_of ''/m/222222/'')
     = Some (str_of ''111111'')"
    by (simp add: pattern_eval)
qed

text \<open>
  C9 at a read that returns a scan, its terminator and the beginning of the next scan: the
  buffer does not end with the terminator, so the loop keeps all of it, a complete record
  and a pending one.
\<close>

theorem terminator_inside_buffer:
  "loop example_env init [Read (bytes_of ''/m/111111/'' @ END_BYTES @ bytes_of ''/m/22'') example_time]
     = Running (init\<lparr>buf := bytes_of ''/m/111111/'' @ END_BYTES @ bytes_of ''/m/22''\<rparr>)
   \<and> split_terminated [] (bytes_of ''/m/111111/'' @ END_BYTES @ bytes_of ''/m/22'')
     = [bytes_of ''/m/111111/'']"
proof (intro conjI)
  have "frame [] (bytes_of ''/m/111111/'' @ END_BYTES @ bytes_of ''/m/22'')
      = Inr (bytes_of ''/m/111111/'' @ END_BYTES @ bytes_of ''/m/22'', None)"
    by (simp add: frame_def endswith_def END_BYTES_def bytes_of_def)
  then show "loop example_env init
      [Read (bytes_of ''/m/111111/'' @ END_BYTES @ bytes_of ''/m/22'') example_time]
     = Running (init\<lparr>buf := bytes_of ''/m/111111/'' @ END_BYTES @ bytes_of ''/m/22''\<rparr>)"
    by (simp add: iteration_def init_def)
  show "split_terminated [] (bytes_of ''/m/111111/'' @ END_BYTES @ bytes_of ''/m/22'')
     = [bytes_of ''/m/111111/'']"
    by (simp add: END_BYTES_def bytes_of_def)
qed

end
